theory Spec2Isabelle
  imports Main "HOL-Library.Sublist"
begin

section \<open>Python primitives used by \<open>ori_finder.py\<close>\<close>

text \<open>
  Python integers are unbounded, so every integer parameter is an \<open>int\<close>. A sequence is a
  Python \<open>str\<close> of nucleotide symbols, modelled as a \<open>string\<close>. The exceptions the
  module can raise are the \<open>ValueError\<close> of the built-ins \<open>range\<close> (zero step), \<open>min\<close>
  (empty argument) and \<open>list.index\<close> (value absent), and the \<open>OverflowError\<close> of adding
  an integer too large for a float to a float; a function that can raise returns
  \<open>error + 'a\<close> with \<open>Inl\<close> for the exception.
\<close>

datatype error = ValueError | OverflowError

text \<open>
  \<open>xs[a:b]\<close>: a negative bound counts from the end, then both bounds are clamped to
  \<open>0 .. len(xs)\<close>; the slice is empty when the adjusted start is not below the adjusted
  stop. Slicing never raises.
\<close>

definition adjust_index :: "nat \<Rightarrow> int \<Rightarrow> int" where
  "adjust_index n i = (if i < 0 then max 0 (i + int n) else min i (int n))"

definition py_slice :: "'a list \<Rightarrow> int \<Rightarrow> int \<Rightarrow> 'a list" where
  "py_slice xs a b =
     (let lo = adjust_index (length xs) a;
          hi = adjust_index (length xs) b
      in take (nat (hi - lo)) (drop (nat lo) xs))"

text \<open>
  \<open>range(start, stop, step)\<close>: \<open>ValueError\<close> for a zero step, otherwise the arithmetic
  progression from \<open>start\<close> that stays strictly before \<open>stop\<close> (after it, for a negative
  step). \<open>range_len\<close> is the number of its elements.
\<close>

definition range_len :: "int \<Rightarrow> int \<Rightarrow> int \<Rightarrow> nat" where
  "range_len start stop step =
     (if 0 < step then (if start < stop then nat ((stop - start - 1) div step + 1) else 0)
      else (if stop < start then nat ((start - stop - 1) div (- step) + 1) else 0))"

definition py_range3 :: "int \<Rightarrow> int \<Rightarrow> int \<Rightarrow> error + int list" where
  "py_range3 start stop step =
     (if step = 0 then Inl ValueError
      else Inr (map (\<lambda>n. start + int n * step) [0 ..< range_len start stop step]))"

text \<open>\<open>range(start, stop)\<close> has step 1 and cannot raise.\<close>

definition py_range :: "int \<Rightarrow> int \<Rightarrow> int list" where
  "py_range start stop = [start .. stop - 1]"

text \<open>\<open>min(xs)\<close> raises \<open>ValueError\<close> on an empty list.\<close>

fun py_min :: "int list \<Rightarrow> error + int" where
  "py_min [] = Inl ValueError"
| "py_min (x # xs) = Inr (fold min xs x)"

text \<open>\<open>xs.index(v)\<close>: the first position holding \<open>v\<close>, \<open>ValueError\<close> when there is none.\<close>

fun py_index :: "int list \<Rightarrow> int \<Rightarrow> error + nat" where
  "py_index [] v = Inl ValueError"
| "py_index (x # xs) v =
     (if x = v then Inr 0
      else (case py_index xs v of Inl e \<Rightarrow> Inl e | Inr n \<Rightarrow> Inr (Suc n)))"

section \<open>The functions of \<open>ori_finder.py\<close>\<close>

subsection \<open>\<open>compute_gc_skew\<close>\<close>

text \<open>
  The body of the loop: \<open>window.count("G")\<close>, \<open>window.count("C")\<close> and the skew of one
  window. The values the source produces are Python integers and the float \<open>0.0\<close>, which
  is the integer 0 as a number, so a skew value is an \<open>int\<close> here.
\<close>

definition window_skew :: "string \<Rightarrow> int" where
  "window_skew window =
     (let g = int (count_list window CHR ''G'');
          c = int (count_list window CHR ''C'')
      in if g + c = 0 then 0 else g - c)"

definition compute_gc_skew :: "string \<Rightarrow> int \<Rightarrow> error + int list" where
  "compute_gc_skew sequence window_size =
     (case py_range3 0 (int (length sequence) - window_size + 1) window_size of
        Inl e \<Rightarrow> Inl e
      | Inr offsets \<Rightarrow>
          Inr (fold (\<lambda>i skew_values.
                       skew_values @ [window_skew (py_slice sequence i (i + window_size))])
                 offsets []))"

subsection \<open>\<open>cumulative_gc_skew\<close>\<close>

text \<open>
  The loop state is the pair \<open>(cumulative, total)\<close>. This first definition reads the
  running total as an exact number and is polymorphic in the number type: it only adds. It
  is the function \<open>find_ori_position\<close> is defined with. The source keeps the total in a
  float; \<open>cumulative_gc_skew_float\<close> below models that arithmetic, and the two are shown
  to return the same values on every profile whose sums a float holds exactly, in particular
  on every profile \<open>compute_gc_skew\<close> produces from a sequence of at most \<open>2 ^ 53\<close> symbols.
\<close>

definition cumulative_gc_skew :: "'a::monoid_add list \<Rightarrow> 'a list" where
  "cumulative_gc_skew skew_values =
     fst (fold (\<lambda>value (cumulative, total). (cumulative @ [total + value], total + value))
            skew_values ([], 0))"

subsection \<open>\<open>cumulative_gc_skew\<close> with the float total of the source\<close>

text \<open>
  \<open>total = 0.0\<close> is an IEEE binary64 float, and \<open>total += value\<close> with an integer
  \<open>value\<close> first converts the integer to a float and then adds two floats. Every float
  that arises is an integer, an infinity or (for the addition in general) not a number.

  \<open>bit_length\<close> is Python's \<open>int.bit_length\<close> on a magnitude. \<open>round_binary64\<close> rounds an
  integer to the nearest integer with at most 53 significant bits, ties to the even
  significand: the value a binary64 holds for it. A rounded magnitude of \<open>2 ^ 1024\<close> or more
  (a bit length above 1024) is beyond the largest finite float.
\<close>

datatype pyfloat = Finite int | PosInf | NegInf | NaN

function bit_length :: "int \<Rightarrow> nat" where
  "bit_length n = (if n \<le> 0 then 0 else Suc (bit_length (n div 2)))"
  by pat_completeness auto
termination
  by (relation "measure nat") auto

declare bit_length.simps [simp del]

definition round_binary64 :: "int \<Rightarrow> int" where
  "round_binary64 x =
     (let n = \<bar>x\<bar>;
          s = bit_length n - 53
      in if s = 0 then x
         else (let q = n div 2 ^ s;
                   r = n mod 2 ^ s;
                   half = 2 ^ (s - 1);
                   q' = (if half < r \<or> (r = half \<and> odd q) then q + 1 else q)
               in sgn x * (q' * 2 ^ s)))"

definition overflows :: "int \<Rightarrow> bool" where
  "overflows r = (1024 < bit_length \<bar>r\<bar>)"

text \<open>
  Converting an integer to a float rounds it and raises \<open>OverflowError\<close> when the result is
  not finite. Adding two floats rounds the exact sum and overflows to an infinity without
  raising.
\<close>

definition int_to_float :: "int \<Rightarrow> error + pyfloat" where
  "int_to_float x =
     (let r = round_binary64 x in if overflows r then Inl OverflowError else Inr (Finite r))"

fun float_add :: "pyfloat \<Rightarrow> pyfloat \<Rightarrow> pyfloat" where
  "float_add (Finite a) (Finite b) =
     (let r = round_binary64 (a + b)
      in if overflows r then (if 0 < r then PosInf else NegInf) else Finite r)"
| "float_add NaN y = NaN"
| "float_add x NaN = NaN"
| "float_add PosInf NegInf = NaN"
| "float_add NegInf PosInf = NaN"
| "float_add PosInf y = PosInf"
| "float_add x PosInf = PosInf"
| "float_add NegInf y = NegInf"
| "float_add x NegInf = NegInf"

text \<open>
  The loop over a list of Python integers, with its state \<open>(cumulative, total)\<close> (the
  total is \<open>tot\<close> below); it stops at the first element whose conversion raises.
\<close>

fun cumulative_loop :: "int list \<Rightarrow> pyfloat list \<Rightarrow> pyfloat \<Rightarrow> error + pyfloat list" where
  "cumulative_loop [] cumulative tot = Inr cumulative"
| "cumulative_loop (value # rest) cumulative tot =
     (case int_to_float value of
        Inl e \<Rightarrow> Inl e
      | Inr v \<Rightarrow> cumulative_loop rest (cumulative @ [float_add tot v]) (float_add tot v))"

definition cumulative_gc_skew_float :: "int list \<Rightarrow> error + pyfloat list" where
  "cumulative_gc_skew_float skew_values = cumulative_loop skew_values [] (Finite 0)"

subsection \<open>\<open>find_ori_position\<close>\<close>

definition find_ori_position :: "string \<Rightarrow> int \<Rightarrow> error + (int \<times> int)" where
  "find_ori_position sequence window_size =
     (case compute_gc_skew sequence window_size of
        Inl e \<Rightarrow> Inl e
      | Inr skew \<Rightarrow>
          (let cumulative = cumulative_gc_skew skew in
           case py_min cumulative of
             Inl e \<Rightarrow> Inl e
           | Inr m \<Rightarrow>
               (case py_index cumulative m of
                  Inl e \<Rightarrow> Inl e
                | Inr min_index \<Rightarrow>
                    (let ori_start = int min_index * window_size;
                         ori_end = ori_start + window_size
                     in Inr (ori_start, ori_end)))))"

subsection \<open>\<open>extract_ori_region\<close>\<close>

text \<open>Python's \<open>//\<close> is floor division, as \<open>div\<close> on \<open>int\<close> is.\<close>

definition extract_ori_region :: "string \<Rightarrow> int \<Rightarrow> int \<Rightarrow> error + (string \<times> int \<times> int)" where
  "extract_ori_region sequence window_size flank =
     (case find_ori_position sequence window_size of
        Inl e \<Rightarrow> Inl e
      | Inr (ori_start, ori_end) \<Rightarrow>
          (let ori_center = ori_start + window_size div 2;
               start = max 0 (ori_center - flank);
               end = min (int (length sequence)) (ori_center + flank)
           in Inr (py_slice sequence start end, start, end)))"

subsection \<open>\<open>find_clumps\<close>\<close>

text \<open>
  \<open>kmer_counts\<close> is a \<open>defaultdict(int)\<close>: an association list in insertion order with
  one entry per key. \<open>kmer_counts[kmer] += 1\<close> adds one to the entry of \<open>kmer\<close>, creating
  it from the default 0 when it is missing.
\<close>

fun increment :: "(string \<times> int) list \<Rightarrow> string \<Rightarrow> (string \<times> int) list" where
  "increment [] kmer = [(kmer, 0 + 1)]"
| "increment ((key, count) # rest) kmer =
     (if key = kmer then (key, count + 1) # rest else (key, count) # increment rest kmer)"

definition count_kmers :: "string \<Rightarrow> int \<Rightarrow> (string \<times> int) list" where
  "count_kmers window k =
     fold (\<lambda>j kmer_counts. increment kmer_counts (py_slice window j (j + k)))
       (py_range 0 (int (length window) - k + 1)) []"

definition frequent_kmers :: "string \<Rightarrow> int \<Rightarrow> int \<Rightarrow> string set" where
  "frequent_kmers window k min_occurrence =
     set (map fst (filter (\<lambda>(kmer, count). min_occurrence \<le> count) (count_kmers window k)))"

text \<open>The result dictionary is a map from coordinate pairs to sets of k-mers.\<close>

type_synonym clump_map = "(int \<times> int) \<rightharpoonup> string set"

definition find_clumps :: "string \<Rightarrow> int \<Rightarrow> int \<Rightarrow> int \<Rightarrow> clump_map" where
  "find_clumps sequence k window_length min_occurrence =
     fold (\<lambda>i clumps.
             (let window = py_slice sequence i (i + window_length);
                  frequent = frequent_kmers window k min_occurrence
              in if frequent \<noteq> {} then clumps((i, i + window_length) \<mapsto> frequent)
                 else clumps))
       (py_range 0 (int (length sequence) - window_length + 1)) Map.empty"

subsection \<open>\<open>find_ori_with_clumps\<close>\<close>

record analysis_result =
  ori_start :: int
  ori_end :: int
  ori_sequence :: string
  clumps :: clump_map

definition find_ori_with_clumps ::
  "string \<Rightarrow> int \<Rightarrow> int \<Rightarrow> int \<Rightarrow> int \<Rightarrow> int \<Rightarrow> error + analysis_result" where
  "find_ori_with_clumps sequence skew_window flank k clump_window min_occurrence =
     (case extract_ori_region sequence skew_window flank of
        Inl e \<Rightarrow> Inl e
      | Inr (ori_region, start, end) \<Rightarrow>
          (let clumps = find_clumps ori_region k clump_window min_occurrence
           in Inr \<lparr>ori_start = start, ori_end = end,
                   ori_sequence = ori_region, clumps = clumps\<rparr>))"

subsection \<open>The reference definition of clump finding\<close>

text \<open>
  The specification's description of \<open>find_clumps\<close>, written from its words and not from
  the loops. An occurrence of a k-mer in a window is a position at which the k-mer starts
  and fits; occurrences may overlap. The frequent set of a window holds the substrings of
  length \<open>k\<close> of the window with at least \<open>min_occurrence\<close> occurrences. The reference map
  has the key \<open>(i, i + window_length)\<close> for each offset \<open>0 \<le> i \<le> len - window_length\<close> whose
  window \<open>sequence[i : i + window_length]\<close> has a non-empty frequent set, mapped to that set.
\<close>

definition occurrences :: "string \<Rightarrow> string \<Rightarrow> nat" where
  "occurrences kmer window =
     card {j. j + length kmer \<le> length window \<and> take (length kmer) (drop j window) = kmer}"

definition frequent_set_ref :: "string \<Rightarrow> int \<Rightarrow> int \<Rightarrow> string set" where
  "frequent_set_ref window k min_occurrence =
     {kmer. int (length kmer) = k \<and> sublist kmer window
            \<and> min_occurrence \<le> int (occurrences kmer window)}"

definition find_clumps_ref :: "string \<Rightarrow> int \<Rightarrow> int \<Rightarrow> int \<Rightarrow> clump_map" where
  "find_clumps_ref sequence k window_length min_occurrence =
     (\<lambda>(s, e).
        if 0 \<le> s \<and> s \<le> int (length sequence) - window_length \<and> e = s + window_length
           \<and> frequent_set_ref (py_slice sequence s (s + window_length)) k min_occurrence \<noteq> {}
        then Some (frequent_set_ref (py_slice sequence s (s + window_length)) k min_occurrence)
        else None)"

section \<open>The running prefix sum\<close>

lemma cumulative_fold:
  "fold (\<lambda>value (cumulative, total). (cumulative @ [total + value], total + value)) xs (acc, t)
     = (acc @ map (\<lambda>i. t + sum_list (take (Suc i) xs)) [0 ..< length xs], t + sum_list xs)"
proof (induction xs arbitrary: acc t)
  case Nil
  then show ?case by simp
next
  case (Cons x xs)
  have "map (\<lambda>i. t + sum_list (take (Suc i) (x # xs))) [0 ..< length (x # xs)]
          = (t + x) # map (\<lambda>i. t + x + sum_list (take (Suc i) xs)) [0 ..< length xs]"
    by (simp add: upt_conv_Cons map_Suc_upt [symmetric] add.assoc del: upt_Suc)
  with Cons.IH [of "acc @ [t + x]" "t + x"] show ?case
    by (simp add: add.assoc)
qed

lemma cumulative_gc_skew_eq:
  "cumulative_gc_skew xs = map (\<lambda>i. sum_list (take (Suc i) xs)) [0 ..< length xs]"
  by (simp add: cumulative_gc_skew_def cumulative_fold)

text \<open>
  The float loop. Integers of magnitude at most \<open>2 ^ 53\<close> convert to floats unchanged, and
  a sum of two of them within that range is added without rounding.
\<close>

lemma bit_length_le: "n < 2 ^ k \<Longrightarrow> bit_length n \<le> k"
proof (induction k arbitrary: n)
  case 0
  then have "n \<le> 0" by simp
  then show ?case by (simp add: bit_length.simps)
next
  case (Suc k)
  show ?case
  proof (cases "n \<le> 0")
    case True
    then show ?thesis by (simp add: bit_length.simps)
  next
    case False
    from Suc.prems have "n div 2 < 2 ^ k" by simp
    then have "bit_length (n div 2) \<le> k" by (rule Suc.IH)
    with False show ?thesis by (subst bit_length.simps) simp
  qed
qed

lemma round_binary64_exact:
  assumes "\<bar>x\<bar> \<le> 2 ^ 53"
  shows "round_binary64 x = x"
proof (cases "\<bar>x\<bar> = 2 ^ 53")
  case True
  then have "x = 9007199254740992 \<or> x = - 9007199254740992" by auto
  moreover have "round_binary64 9007199254740992 = 9007199254740992"
    "round_binary64 (- 9007199254740992) = - 9007199254740992"
    by code_simp+
  ultimately show ?thesis by auto
next
  case False
  with assms have "\<bar>x\<bar> < 2 ^ 53" by linarith
  then have "bit_length \<bar>x\<bar> \<le> 53" by (rule bit_length_le)
  then show ?thesis by (simp add: round_binary64_def Let_def)
qed

lemma not_overflows:
  assumes "\<bar>x\<bar> \<le> 2 ^ 53"
  shows "\<not> overflows x"
proof -
  from assms have "\<bar>x\<bar> < 2 ^ 54" by simp
  then have "bit_length \<bar>x\<bar> \<le> 54" by (rule bit_length_le)
  then show ?thesis by (simp add: overflows_def)
qed

lemma int_to_float_exact: "\<bar>x\<bar> \<le> 2 ^ 53 \<Longrightarrow> int_to_float x = Inr (Finite x)"
  by (simp add: int_to_float_def round_binary64_exact not_overflows)

lemma float_add_exact: "\<bar>a + b\<bar> \<le> 2 ^ 53 \<Longrightarrow> float_add (Finite a) (Finite b) = Finite (a + b)"
  by (simp add: round_binary64_exact not_overflows)

lemma cumulative_loop_exact:
  assumes "\<forall>i<length xs. \<bar>xs ! i\<bar> \<le> 2 ^ 53 \<and> \<bar>t + sum_list (take (Suc i) xs)\<bar> \<le> 2 ^ 53"
  shows "cumulative_loop xs acc (Finite t)
           = Inr (acc @ map (\<lambda>i. Finite (t + sum_list (take (Suc i) xs))) [0 ..< length xs])"
  using assms
proof (induction xs arbitrary: acc t)
  case Nil
  then show ?case by simp
next
  case (Cons x xs)
  from Cons.prems have x: "\<bar>x\<bar> \<le> 2 ^ 53" "\<bar>t + x\<bar> \<le> 2 ^ 53" by fastforce+
  have rest: "\<forall>i<length xs. \<bar>xs ! i\<bar> \<le> 2 ^ 53 \<and> \<bar>t + x + sum_list (take (Suc i) xs)\<bar> \<le> 2 ^ 53"
  proof (intro allI impI)
    fix i assume "i < length xs"
    then have "Suc i < length (x # xs)" by simp
    with Cons.prems have "\<bar>(x # xs) ! Suc i\<bar> \<le> 2 ^ 53
        \<and> \<bar>t + sum_list (take (Suc (Suc i)) (x # xs))\<bar> \<le> 2 ^ 53"
      by blast
    then show "\<bar>xs ! i\<bar> \<le> 2 ^ 53 \<and> \<bar>t + x + sum_list (take (Suc i) xs)\<bar> \<le> 2 ^ 53"
      by (simp add: add.assoc)
  qed
  have c: "int_to_float x = Inr (Finite x)"
    using x(1) by (rule int_to_float_exact)
  have a: "float_add (Finite t) (Finite x) = Finite (t + x)"
    using x(2) by (rule float_add_exact)
  have m: "map (\<lambda>i. Finite (t + sum_list (take (Suc i) (x # xs)))) [0 ..< length (x # xs)]
          = Finite (t + x) # map (\<lambda>i. Finite (t + x + sum_list (take (Suc i) xs))) [0 ..< length xs]"
    by (simp add: upt_conv_Cons map_Suc_upt [symmetric] add.assoc del: upt_Suc)
  have "cumulative_loop (x # xs) acc (Finite t)
          = cumulative_loop xs (acc @ [Finite (t + x)]) (Finite (t + x))"
    by (simp add: c a del: float_add.simps)
  also have "\<dots> = Inr ((acc @ [Finite (t + x)])
        @ map (\<lambda>i. Finite (t + x + sum_list (take (Suc i) xs))) [0 ..< length xs])"
    by (rule Cons.IH [OF rest])
  also have "\<dots> = Inr (acc @ map (\<lambda>i. Finite (t + sum_list (take (Suc i) (x # xs))))
        [0 ..< length (x # xs)])"
    by (simp only: m append_assoc append_Cons append_Nil)
  finally show ?case .
qed

lemma cumulative_loop_length:
  "cumulative_loop xs acc t = Inr cum \<Longrightarrow> length cum = length acc + length xs"
proof (induction xs arbitrary: acc t)
  case Nil
  then show ?case by simp
next
  case (Cons x xs)
  then show ?case by (fastforce split: sum.splits)
qed

lemma cumulative_gc_skew_float_exact:
  assumes "\<forall>i<length xs. \<bar>xs ! i\<bar> \<le> 2 ^ 53 \<and> \<bar>sum_list (take (Suc i) xs)\<bar> \<le> 2 ^ 53"
  shows "cumulative_gc_skew_float xs = Inr (map Finite (cumulative_gc_skew xs))"
proof -
  from assms
  have "\<forall>i<length xs. \<bar>xs ! i\<bar> \<le> 2 ^ 53 \<and> \<bar>0 + sum_list (take (Suc i) xs)\<bar> \<le> 2 ^ 53"
    by simp
  from cumulative_loop_exact [OF this, of "[]"] show ?thesis
    by (simp add: cumulative_gc_skew_float_def cumulative_gc_skew_eq comp_def)
qed

text \<open>
  C5, as amended. On a list of integers, \<open>cumulative_gc_skew\<close> with its float total returns
  the empty list for the empty input, and whenever it returns, a list as long as its input.
  When every element and every prefix sum has magnitude at most \<open>2 ^ 53\<close>, it returns, and
  element \<open>i\<close> of the result is the sum of the input elements 0 to \<open>i\<close> inclusive; for a
  non-empty input the last element is then the sum of all input elements.
\<close>

theorem cumulative_gc_skew_float_prefix_sums:
  "cumulative_gc_skew_float [] = Inr []
   \<and> (\<forall>cum. cumulative_gc_skew_float xs = Inr cum \<longrightarrow> length cum = length xs)
   \<and> ((\<forall>i. i < length xs \<longrightarrow>
          \<bar>xs ! i\<bar> \<le> 2 ^ 53 \<and> \<bar>sum_list (take (Suc i) xs)\<bar> \<le> 2 ^ 53) \<longrightarrow>
        (\<exists>cum. cumulative_gc_skew_float xs = Inr cum
           \<and> length cum = length xs
           \<and> (\<forall>i. i < length xs \<longrightarrow> cum ! i = Finite (sum_list (take (Suc i) xs)))
           \<and> (xs \<noteq> [] \<longrightarrow> last cum = Finite (sum_list xs))))"
proof -
  have empty: "cumulative_gc_skew_float [] = Inr []"
    by (simp add: cumulative_gc_skew_float_def)
  have len: "length cum = length xs" if "cumulative_gc_skew_float xs = Inr cum" for cum
    using cumulative_loop_length [of xs "[]" "Finite 0" cum] that
    by (simp add: cumulative_gc_skew_float_def)
  have exact: "\<exists>cum. cumulative_gc_skew_float xs = Inr cum
           \<and> length cum = length xs
           \<and> (\<forall>i. i < length xs \<longrightarrow> cum ! i = Finite (sum_list (take (Suc i) xs)))
           \<and> (xs \<noteq> [] \<longrightarrow> last cum = Finite (sum_list xs))"
    if b: "\<forall>i. i < length xs \<longrightarrow>
          \<bar>xs ! i\<bar> \<le> 2 ^ 53 \<and> \<bar>sum_list (take (Suc i) xs)\<bar> \<le> 2 ^ 53"
  proof -
    let ?cum = "map (\<lambda>i. Finite (sum_list (take (Suc i) xs))) [0 ..< length xs]"
    from b have "\<forall>i<length xs. \<bar>xs ! i\<bar> \<le> 2 ^ 53 \<and> \<bar>sum_list (take (Suc i) xs)\<bar> \<le> 2 ^ 53"
      by blast
    from cumulative_gc_skew_float_exact [OF this]
    have run: "cumulative_gc_skew_float xs = Inr ?cum"
      by (simp add: cumulative_gc_skew_eq comp_def)
    have l: "length ?cum = length xs" by simp
    have nth: "?cum ! i = Finite (sum_list (take (Suc i) xs))" if "i < length xs" for i
      using that by simp
    have "last ?cum = Finite (sum_list xs)" if "xs \<noteq> []"
    proof -
      from that have pos: "0 < length xs" by simp
      then have "?cum \<noteq> []" by simp
      then have "last ?cum = ?cum ! (length ?cum - 1)" by (rule last_conv_nth)
      also have "\<dots> = Finite (sum_list (take (Suc (length xs - 1)) xs))"
        using pos by (simp del: upt_Suc)
      also have "\<dots> = Finite (sum_list xs)" using pos by simp
      finally show ?thesis .
    qed
    with run l nth show ?thesis by blast
  qed
  from empty len exact show ?thesis by blast
qed

theorem cumulative_gc_skew_float_prefix_sums_witness:
  "cumulative_gc_skew_float [1, - 2, 3, - 1] = Inr [Finite 1, Finite (- 1), Finite 2, Finite 1]
   \<and> sum_list [1, - 2, 3, - 1 :: int] = 1
   \<and> cumulative_gc_skew_float [] = Inr []"
proof -
  have a: "cumulative_gc_skew_float [1, - 2, 3, - 1] = Inr [Finite 1, Finite (- 1), Finite 2, Finite 1]"
    by code_simp
  from cumulative_gc_skew_float_prefix_sums [of "[1, - 2, 3, - 1]"] a show ?thesis by simp
qed

text \<open>
  C5 as stated covers every list of numbers. The running total is a float: adding 1 to
  \<open>2 ^ 53\<close> rounds back to \<open>2 ^ 53\<close>, so the second element of the result is not the sum
  of the first two input elements.
\<close>

theorem cumulative_gc_skew_float_rounds:
  "cumulative_gc_skew_float [9007199254740992, 1]
     = Inr [Finite 9007199254740992, Finite 9007199254740992]
   \<and> sum_list [9007199254740992, 1 :: int] = 9007199254740993
   \<and> (9007199254740992 :: int) = 2 ^ 53"
  by code_simp

section \<open>The skew profile\<close>

lemma fold_append_map: "fold (\<lambda>i acc. acc @ [f i]) xs acc0 = acc0 @ map f xs"
  by (induction xs arbitrary: acc0) simp_all

lemma range_len_windows:
  assumes "0 < w"
  shows "range_len 0 (int L - w + 1) w = L div nat w"
proof (cases "w \<le> int L")
  case True
  have "int L div w = (int L - w) div w + 1"
    using assms div_add_self2 [of w "int L - w"] by simp
  then have "nat ((int L - w) div w + 1) = nat (int L div w)" by simp
  also have "\<dots> = L div nat w"
    using assms by (simp add: nat_div_distrib)
  finally show ?thesis using True assms by (simp add: range_len_def)
next
  case False
  then have "L < nat w" by linarith
  then show ?thesis using False assms by (simp add: range_len_def)
qed

lemma py_slice_inside:
  assumes "0 \<le> a" "a \<le> b" "b \<le> int (length xs)"
  shows "py_slice xs a b = take (nat (b - a)) (drop (nat a) xs)"
  using assms by (simp add: py_slice_def adjust_index_def Let_def min_def)

lemma window_offset:
  assumes "0 < w" "n < L div nat w"
  shows "int n * w + w \<le> int L"
proof -
  define m where "m = nat w"
  with assms have w: "w = int m" by simp
  from assms have "Suc n \<le> L div m" by (simp add: m_def)
  then have "Suc n * m \<le> L div m * m" by (rule mult_le_mono1)
  also have "\<dots> \<le> L" by simp
  finally have "int (Suc n * m) \<le> int L" by (simp only: of_nat_le_iff)
  then show ?thesis by (simp add: w algebra_simps)
qed

lemma compute_gc_skew_eq:
  assumes "0 < w"
  shows "compute_gc_skew sequence w =
    Inr (map (\<lambda>n. window_skew (take (nat w) (drop (n * nat w) sequence)))
           [0 ..< length sequence div nat w])"
proof -
  have slice: "py_slice sequence (int n * w) (int n * w + w) = take (nat w) (drop (n * nat w) sequence)"
    if "n < length sequence div nat w" for n
  proof -
    have "int n * w + w \<le> int (length sequence)"
      using assms that by (rule window_offset)
    moreover have "0 \<le> int n * w" using assms by simp
    moreover have "nat (int n * w) = n * nat w" using assms by (simp add: nat_mult_distrib)
    ultimately show ?thesis using assms by (simp add: py_slice_inside)
  qed
  show ?thesis
    using assms
    by (simp add: compute_gc_skew_def py_range3_def fold_append_map range_len_windows
        comp_def slice cong: map_cong)
qed

lemma window_skew_eq:
  "window_skew window = int (count_list window CHR ''G'') - int (count_list window CHR ''C'')"
  by (simp add: window_skew_def Let_def)


text \<open>
  C4. For a positive \<open>window_size\<close> \<open>w\<close> and a sequence of length \<open>L\<close>,
  \<open>compute_gc_skew\<close> returns exactly \<open>L div w\<close> values. Value \<open>i\<close> belongs to the window
  of exactly \<open>w\<close> symbols at offset \<open>i * w\<close>, which lies inside the sequence (so the windows
  are consecutive, do not overlap, and a shorter remainder is dropped); it is the number of
  \<open>G\<close> minus the number of \<open>C\<close> in that window, and 0 when both are zero. When \<open>w > L\<close>
  the result is the empty profile, not an error.
\<close>

theorem compute_gc_skew_windows:
  assumes "0 < w"
  shows "\<exists>vals. compute_gc_skew sequence w = Inr vals
           \<and> length vals = length sequence div nat w
           \<and> (\<forall>i. i < length vals \<longrightarrow>
                 (let window = take (nat w) (drop (i * nat w) sequence);
                      g = count_list window CHR ''G'';
                      c = count_list window CHR ''C''
                  in length window = nat w
                     \<and> i * nat w + nat w \<le> length sequence
                     \<and> vals ! i = int g - int c
                     \<and> (g = 0 \<and> c = 0 \<longrightarrow> vals ! i = 0)))
           \<and> (int (length sequence) < w \<longrightarrow> vals = [])"
proof -
  let ?win = "\<lambda>i. take (nat w) (drop (i * nat w) sequence)"
  let ?vals = "map (\<lambda>n. window_skew (?win n)) [0 ..< length sequence div nat w]"
  have eq: "compute_gc_skew sequence w = Inr ?vals"
    using assms by (rule compute_gc_skew_eq)
  have len: "length ?vals = length sequence div nat w" by simp
  have inside: "i * nat w + nat w \<le> length sequence" if "i < length sequence div nat w" for i
  proof -
    have "int i * w + w \<le> int (length sequence)"
      using assms that by (rule window_offset)
    moreover have "int (i * nat w + nat w) = int i * w + w" using assms by simp
    ultimately show ?thesis by linarith
  qed
  have elems: "length (?win i) = nat w \<and> i * nat w + nat w \<le> length sequence
        \<and> ?vals ! i = int (count_list (?win i) CHR ''G'') - int (count_list (?win i) CHR ''C'')
        \<and> (count_list (?win i) CHR ''G'' = 0 \<and> count_list (?win i) CHR ''C'' = 0 \<longrightarrow> ?vals ! i = 0)"
    if "i < length ?vals" for i
  proof -
    from that have i: "i < length sequence div nat w" by simp
    from inside [OF i] have "length (?win i) = nat w" by simp
    moreover have "?vals ! i = window_skew (?win i)" using i by simp
    ultimately show ?thesis using inside [OF i] by (simp add: window_skew_eq)
  qed
  have short: "?vals = []" if "int (length sequence) < w"
  proof -
    from that have "length sequence < nat w" by linarith
    then show ?thesis by simp
  qed
  show ?thesis
    apply (rule exI [of _ ?vals])
    using eq len elems short by (simp add: Let_def)
qed

theorem compute_gc_skew_windows_witness:
  "(0::int) < 2 \<and> compute_gc_skew ''GGCATAC'' 2 = Inr [2, - 1, 0]
   \<and> compute_gc_skew ''GG'' 3 = Inr []"
proof -
  have a: "compute_gc_skew ''GGCATAC'' 2 = Inr [2, - 1, 0]"
    and b: "compute_gc_skew ''GG'' 3 = Inr []"
    by code_simp+
  from compute_gc_skew_windows [of 2 "''GGCATAC''"] a b show ?thesis by simp
qed

text \<open>
  A skew value is bounded by the length of its window, so the prefix sums of a profile are
  bounded by the length of the sequence. For a sequence of at most \<open>2 ^ 53\<close> symbols the
  float loop therefore returns exactly the values of \<open>cumulative_gc_skew\<close>, the function
  \<open>find_ori_position\<close> is defined with.
\<close>

lemma count_two: "a \<noteq> b \<Longrightarrow> count_list xs a + count_list xs b \<le> length xs"
  by (induction xs) auto

lemma window_skew_bound: "\<bar>window_skew window\<bar> \<le> int (length window)"
proof -
  have "count_list window CHR ''G'' + count_list window CHR ''C'' \<le> length window"
    by (rule count_two) simp
  then show ?thesis by (simp add: window_skew_eq)
qed

lemma sum_list_abs_bound:
  fixes xs :: "int list"
  assumes "\<forall>x\<in>set xs. \<bar>x\<bar> \<le> b"
  shows "\<bar>sum_list xs\<bar> \<le> int (length xs) * b"
  using assms
proof (induction xs)
  case Nil
  then show ?case by simp
next
  case (Cons x xs)
  then have "\<bar>x\<bar> \<le> b" "\<bar>sum_list xs\<bar> \<le> int (length xs) * b" by simp_all
  then show ?case by (simp add: algebra_simps)
qed

lemma skew_profile_float_exact:
  assumes "0 < w" "int (length sequence) \<le> 2 ^ 53" "compute_gc_skew sequence w = Inr skew"
  shows "cumulative_gc_skew_float skew = Inr (map Finite (cumulative_gc_skew skew))"
proof (rule cumulative_gc_skew_float_exact, intro allI impI)
  fix i
  assume i: "i < length skew"
  define m where "m = nat w"
  define L where "L = length sequence"
  define B :: int where "B = 2 ^ 53"
  from assms(2) have LB: "int L \<le> B" by (simp only: L_def B_def)
  have skew: "skew = map (\<lambda>n. window_skew (take m (drop (n * m) sequence))) [0 ..< L div m]"
    using assms(3) compute_gc_skew_eq [OF assms(1), of sequence] by (simp add: m_def L_def)
  have elem: "\<bar>x\<bar> \<le> int m" if "x \<in> set skew" for x
  proof -
    from that obtain n where "x = window_skew (take m (drop (n * m) sequence))"
      unfolding skew by auto
    with window_skew_bound [of "take m (drop (n * m) sequence)"] show ?thesis by simp
  qed
  from i have "Suc i \<le> L div m" by (simp add: skew)
  then have "Suc i * m \<le> L div m * m" by (rule mult_le_mono1)
  also have "\<dots> \<le> L" by simp
  finally have "int (Suc i * m) \<le> int L" by (simp only: of_nat_le_iff)
  then have "int (Suc i) * int m \<le> int L" by (simp only: of_nat_mult)
  with LB have bound: "int (Suc i) * int m \<le> B" by (rule order_trans [rotated])
  have "\<forall>x\<in>set (take (Suc i) skew). \<bar>x\<bar> \<le> int m"
    using elem by (auto dest: in_set_takeD)
  from sum_list_abs_bound [OF this] i
  have "\<bar>sum_list (take (Suc i) skew)\<bar> \<le> int (Suc i) * int m" by simp
  then have s: "\<bar>sum_list (take (Suc i) skew)\<bar> \<le> B" using bound by (rule order_trans)
  from i have e: "\<bar>skew ! i\<bar> \<le> int m" by (intro elem) simp
  have "int m * 1 \<le> int m * int (Suc i)" by (intro mult_left_mono) simp_all
  then have "int m \<le> int (Suc i) * int m" by (simp only: mult.commute mult_1_right)
  with e bound have "\<bar>skew ! i\<bar> \<le> B" by linarith
  with s show "\<bar>skew ! i\<bar> \<le> 2 ^ 53 \<and> \<bar>sum_list (take (Suc i) skew)\<bar> \<le> 2 ^ 53"
    by (simp only: B_def)
qed

section \<open>Locating the minimum of the cumulative skew\<close>

lemma py_min_eq:
  assumes "xs \<noteq> []"
  shows "py_min xs = Inr (Min (set xs))"
proof (cases xs)
  case Nil
  with assms show ?thesis by simp
next
  case (Cons y ys)
  have "fold min ys y = Min (set (y # ys))" by (rule Min.set_eq_fold [symmetric])
  with Cons show ?thesis by simp
qed

lemma py_index_first:
  "v \<in> set xs \<Longrightarrow>
     \<exists>i. py_index xs v = Inr i \<and> i < length xs \<and> xs ! i = v \<and> (\<forall>j<i. xs ! j \<noteq> v)"
proof (induction xs)
  case Nil
  then show ?case by simp
next
  case (Cons x xs)
  show ?case
  proof (cases "x = v")
    case True
    then show ?thesis by simp
  next
    case False
    with Cons.prems have "v \<in> set xs" by simp
    from Cons.IH [OF this] obtain i where
      i: "py_index xs v = Inr i" "i < length xs" "xs ! i = v" "\<forall>j<i. xs ! j \<noteq> v"
      by blast
    have "\<forall>j<Suc i. (x # xs) ! j \<noteq> v"
      using False i(4) by (auto simp: nth_Cons split: nat.splits)
    with False i show ?thesis by simp
  qed
qed

lemma cumulative_empty_iff: "cumulative_gc_skew xs = [] \<longleftrightarrow> xs = []"
  by (simp add: cumulative_gc_skew_eq)

lemma profile_length:
  assumes "0 < w" "compute_gc_skew sequence w = Inr skew"
  shows "length (cumulative_gc_skew skew) = length sequence div nat w"
  using assms by (auto simp: compute_gc_skew_eq cumulative_gc_skew_eq)

lemma find_ori_position_min:
  assumes "compute_gc_skew sequence w = Inr skew" "cumulative_gc_skew skew \<noteq> []"
  shows "\<exists>i. find_ori_position sequence w = Inr (int i * w, int i * w + w)
           \<and> i < length (cumulative_gc_skew skew)
           \<and> cumulative_gc_skew skew ! i = Min (set (cumulative_gc_skew skew))
           \<and> (\<forall>j<i. cumulative_gc_skew skew ! j \<noteq> Min (set (cumulative_gc_skew skew)))"
proof -
  let ?cum = "cumulative_gc_skew skew"
  have m: "py_min ?cum = Inr (Min (set ?cum))"
    using assms(2) by (rule py_min_eq)
  have "Min (set ?cum) \<in> set ?cum"
    using assms(2) by (intro Min_in) simp_all
  from py_index_first [OF this] obtain i where
    i: "py_index ?cum (Min (set ?cum)) = Inr i" "i < length ?cum"
       "?cum ! i = Min (set ?cum)" "\<forall>j<i. ?cum ! j \<noteq> Min (set ?cum)"
    by blast
  have "find_ori_position sequence w = Inr (int i * w, int i * w + w)"
    by (simp add: find_ori_position_def assms(1) m i(1) Let_def)
  with i show ?thesis by blast
qed

lemma find_ori_position_empty:
  assumes "compute_gc_skew sequence w = Inr skew" "cumulative_gc_skew skew = []"
  shows "find_ori_position sequence w = Inl ValueError"
  by (simp add: find_ori_position_def assms)

lemma find_ori_position_bounds:
  assumes "0 < w" "find_ori_position sequence w = Inr (s, e)"
  shows "0 \<le> s \<and> e = s + w \<and> e \<le> int (length sequence) \<and> s mod w = 0"
proof -
  obtain skew where skew: "compute_gc_skew sequence w = Inr skew"
    using assms(1) by (simp add: compute_gc_skew_eq)
  have ne: "cumulative_gc_skew skew \<noteq> []"
    using find_ori_position_empty [OF skew] assms(2) by auto
  from find_ori_position_min [OF skew ne] obtain i where
    i: "find_ori_position sequence w = Inr (int i * w, int i * w + w)"
       "i < length (cumulative_gc_skew skew)"
    by blast
  from i(2) have "i < length sequence div nat w"
    using profile_length [OF assms(1) skew] by simp
  with assms(1) have "int i * w + w \<le> int (length sequence)" by (rule window_offset)
  moreover from i(1) assms(2) have "s = int i * w" "e = int i * w + w" by simp_all
  ultimately show ?thesis using assms(1) by simp
qed

text \<open>
  C2. For a positive \<open>window_size\<close> \<open>w\<close> and a non-empty cumulative skew profile,
  \<open>find_ori_position\<close> returns \<open>(i * w, i * w + w)\<close> where \<open>i\<close> is an index of the profile
  holding its global minimum (no element is smaller) and every earlier element is strictly
  larger, so \<open>i\<close> is the first occurrence of the minimum. Consequently
  \<open>0 \<le> start < end \<le> len(sequence)\<close>, \<open>end - start = w\<close> and \<open>start\<close> is a multiple of \<open>w\<close>.
\<close>

theorem find_ori_position_first_minimum:
  assumes "0 < w" "compute_gc_skew sequence w = Inr skew" "cumulative_gc_skew skew \<noteq> []"
  shows "\<exists>i start end.
           find_ori_position sequence w = Inr (start, end)
           \<and> start = int i * w \<and> end = int i * w + w
           \<and> i < length (cumulative_gc_skew skew)
           \<and> (\<forall>j. j < length (cumulative_gc_skew skew) \<longrightarrow>
                 cumulative_gc_skew skew ! i \<le> cumulative_gc_skew skew ! j)
           \<and> (\<forall>j. j < i \<longrightarrow> cumulative_gc_skew skew ! i < cumulative_gc_skew skew ! j)
           \<and> 0 \<le> start \<and> start < end \<and> end \<le> int (length sequence)
           \<and> end - start = w \<and> start mod w = 0"
proof -
  let ?cum = "cumulative_gc_skew skew"
  from find_ori_position_min [OF assms(2,3)] obtain i where
    i: "find_ori_position sequence w = Inr (int i * w, int i * w + w)" "i < length ?cum"
       "?cum ! i = Min (set ?cum)" "\<forall>j<i. ?cum ! j \<noteq> Min (set ?cum)"
    by blast
  have least: "?cum ! i \<le> ?cum ! j" if "j < length ?cum" for j
    using that i(3) by simp
  have first: "?cum ! i < ?cum ! j" if "j < i" for j
  proof -
    from that i(2) have "j < length ?cum" by simp
    from i(4) that have "?cum ! j \<noteq> ?cum ! i" by (simp add: i(3))
    with least [OF \<open>j < length ?cum\<close>] show ?thesis by simp
  qed
  from find_ori_position_bounds [OF assms(1) i(1)] assms(1)
  have "0 \<le> int i * w \<and> int i * w < int i * w + w
        \<and> int i * w + w \<le> int (length sequence) \<and> (int i * w) mod w = 0"
    by simp
  with i(1,2) least first show ?thesis by auto
qed

theorem find_ori_position_first_minimum_witness:
  "(0::int) < 2 \<and> compute_gc_skew ''GGCCCCAAT'' 2 = Inr [2, - 2, - 2, 0]
   \<and> cumulative_gc_skew [2, - 2, - 2, 0 :: int] = [2, 0, - 2, - 2]
   \<and> find_ori_position ''GGCCCCAAT'' 2 = Inr (4, 6)"
proof -
  have a: "compute_gc_skew ''GGCCCCAAT'' 2 = Inr [2, - 2, - 2, 0]" by code_simp
  have b: "cumulative_gc_skew [2, - 2, - 2, 0 :: int] = [2, 0, - 2, - 2]" by code_simp
  have c: "cumulative_gc_skew [2, - 2, - 2, 0 :: int] \<noteq> []" by (simp add: b)
  have d: "find_ori_position ''GGCCCCAAT'' 2 = Inr (4, 6)" by code_simp
  from find_ori_position_first_minimum [OF _ a c] a b d show ?thesis by simp
qed

text \<open>
  C9. When the cumulative skew profile is empty, \<open>find_ori_position\<close> fails (the
  \<open>ValueError\<close> of \<open>min\<close> on an empty list) and returns no coordinate pair; when the
  profile is non-empty it returns a pair. For a positive \<open>window_size\<close> the profile is empty
  exactly when the sequence is shorter than one window.
\<close>

theorem find_ori_position_empty_profile:
  assumes "compute_gc_skew sequence w = Inr skew"
  shows "(cumulative_gc_skew skew = [] \<longrightarrow> find_ori_position sequence w = Inl ValueError)
         \<and> (cumulative_gc_skew skew \<noteq> [] \<longrightarrow> (\<exists>start end. find_ori_position sequence w = Inr (start, end)))
         \<and> (0 < w \<longrightarrow> (cumulative_gc_skew skew = [] \<longleftrightarrow> int (length sequence) < w))"
proof -
  have "cumulative_gc_skew skew = [] \<longleftrightarrow> int (length sequence) < w" if "0 < w"
  proof -
    have "length (cumulative_gc_skew skew) = length sequence div nat w"
      using that assms by (rule profile_length)
    moreover have "length sequence div nat w = 0 \<longleftrightarrow> length sequence < nat w"
      using that by (simp add: div_eq_0_iff)
    ultimately have "cumulative_gc_skew skew = [] \<longleftrightarrow> length sequence < nat w"
      by (metis length_0_conv)
    then show ?thesis using that by linarith
  qed
  moreover have "\<exists>start end. find_ori_position sequence w = Inr (start, end)"
    if "cumulative_gc_skew skew \<noteq> []"
    using find_ori_position_min [OF assms that] by blast
  ultimately show ?thesis
    using find_ori_position_empty [OF assms] by blast
qed

theorem find_ori_position_empty_profile_witness:
  "compute_gc_skew ''GC'' 3 = Inr [] \<and> cumulative_gc_skew ([] :: int list) = []
   \<and> find_ori_position ''GC'' 3 = Inl ValueError
   \<and> compute_gc_skew ''GCC'' 3 = Inr [- 1] \<and> cumulative_gc_skew [- 1 :: int] = [- 1]
   \<and> find_ori_position ''GCC'' 3 = Inr (0, 3)"
proof -
  have a: "compute_gc_skew ''GC'' 3 = Inr []" by code_simp
  have b: "compute_gc_skew ''GCC'' 3 = Inr [- 1]" by code_simp
  have c: "cumulative_gc_skew ([] :: int list) = []" "cumulative_gc_skew [- 1 :: int] = [- 1]"
    by code_simp+
  have d: "find_ori_position ''GCC'' 3 = Inr (0, 3)" by code_simp
  from find_ori_position_empty_profile [OF a] find_ori_position_empty_profile [OF b] a b c d
  show ?thesis by simp
qed

section \<open>The flanked region and the pipeline\<close>

lemma fold_clumps:
  "fold (\<lambda>i clumps. if F i \<noteq> {} then clumps((i, i + wl) \<mapsto> F i) else clumps) offsets m (s, e)
     = (if s \<in> set offsets \<and> e = s + wl \<and> F s \<noteq> {} then Some (F s) else m (s, e))"
  by (induction offsets arbitrary: m) auto

lemma find_clumps_eq:
  "find_clumps sequence k wl min_occ (s, e) =
     (if 0 \<le> s \<and> s \<le> int (length sequence) - wl \<and> e = s + wl
         \<and> frequent_kmers (py_slice sequence s (s + wl)) k min_occ \<noteq> {}
      then Some (frequent_kmers (py_slice sequence s (s + wl)) k min_occ) else None)"
  by (simp add: find_clumps_def Let_def py_range_def fold_clumps)

lemma find_clumps_keys:
  assumes "(s, e) \<in> dom (find_clumps sequence k wl min_occ)"
  shows "0 \<le> s \<and> e = s + wl \<and> e \<le> int (length sequence)"
  using assms by (auto simp: dom_def find_clumps_eq split: if_splits)

lemma extract_ori_region_eq:
  assumes "find_ori_position sequence w = Inr (pos_start, pos_end)"
  shows "extract_ori_region sequence w flank =
           Inr (py_slice sequence (max 0 (pos_start + w div 2 - flank))
                  (min (int (length sequence)) (pos_start + w div 2 + flank)),
                max 0 (pos_start + w div 2 - flank),
                min (int (length sequence)) (pos_start + w div 2 + flank))"
  by (simp add: extract_ori_region_def assms Let_def)

lemma center_inside:
  assumes "0 < w" "find_ori_position sequence w = Inr (pos_start, pos_end)"
  shows "0 \<le> pos_start + w div 2 \<and> pos_start + w div 2 < int (length sequence)"
proof -
  from find_ori_position_bounds [OF assms]
  have "0 \<le> pos_start" "pos_start + w \<le> int (length sequence)" by simp_all
  moreover from assms(1) have "0 \<le> w div 2" "w div 2 < w" by simp_all
  ultimately show ?thesis by linarith
qed

text \<open>
  C3. For a positive \<open>window_size\<close> and a positive \<open>flank\<close>, when \<open>find_ori_position\<close>
  succeeds with \<open>(pos_start, pos_end)\<close>, \<open>extract_ori_region\<close> returns
  \<open>(region, start, end)\<close> with center \<open>pos_start + window_size div 2\<close>,
  \<open>start = max 0 (center - flank)\<close>, \<open>end = min (len sequence) (center + flank)\<close>, the
  \<open>region\<close> the subsequence of the symbols at positions \<open>start \<le> p < end\<close>, its length equal
  to \<open>end - start\<close>, and \<open>0 \<le> start < end \<le> len sequence\<close>. The region is at most
  \<open>2 * flank\<close> long and may be shorter near a boundary; that is a normal result, not an
  error.
\<close>

theorem extract_ori_region_clamped:
  assumes "0 < w" "0 < flank" "find_ori_position sequence w = Inr (pos_start, pos_end)"
  shows "\<exists>region start end.
           extract_ori_region sequence w flank = Inr (region, start, end)
           \<and> start = max 0 (pos_start + w div 2 - flank)
           \<and> end = min (int (length sequence)) (pos_start + w div 2 + flank)
           \<and> region = take (nat (end - start)) (drop (nat start) sequence)
           \<and> int (length region) = end - start
           \<and> 0 \<le> start \<and> start < end \<and> end \<le> int (length sequence)
           \<and> end - start \<le> 2 * flank"
proof -
  define start where "start = max 0 (pos_start + w div 2 - flank)"
  define "end" where "end = min (int (length sequence)) (pos_start + w div 2 + flank)"
  from center_inside [OF assms(1,3)]
  have c: "0 \<le> pos_start + w div 2" "pos_start + w div 2 < int (length sequence)"
    by simp_all
  have b: "0 \<le> start" "start < end" "end \<le> int (length sequence)" "end - start \<le> 2 * flank"
    using c assms(2) unfolding start_def end_def by linarith+
  then have slice: "py_slice sequence start end = take (nat (end - start)) (drop (nat start) sequence)"
    by (intro py_slice_inside) simp_all
  with b have len: "int (length (py_slice sequence start end)) = end - start" by simp
  have "extract_ori_region sequence w flank = Inr (py_slice sequence start end, start, end)"
    using extract_ori_region_eq [OF assms(3), of flank] by (simp only: start_def end_def)
  with slice len b show ?thesis
    unfolding start_def end_def by blast
qed

theorem extract_ori_region_clamped_witness:
  "(0::int) < 2 \<and> (0::int) < 3 \<and> find_ori_position ''GGCCCCAAT'' 2 = Inr (4, 6)
   \<and> extract_ori_region ''GGCCCCAAT'' 2 3 = Inr (''CCCCAA'', 2, 8)
   \<and> find_ori_position ''CCGGAT'' 2 = Inr (0, 2)
   \<and> extract_ori_region ''CCGGAT'' 2 3 = Inr (''CCGG'', 0, 4)"
proof -
  have a: "find_ori_position ''GGCCCCAAT'' 2 = Inr (4, 6)" by code_simp
  have b: "extract_ori_region ''GGCCCCAAT'' 2 3 = Inr (''CCCCAA'', 2, 8)" by code_simp
  have c: "find_ori_position ''CCGGAT'' 2 = Inr (0, 2)" by code_simp
  have d: "extract_ori_region ''CCGGAT'' 2 3 = Inr (''CCGG'', 0, 4)" by code_simp
  from extract_ori_region_clamped [OF _ _ a, of 3] a b c d show ?thesis by simp
qed

lemma extract_ori_region_cases:
  assumes "extract_ori_region sequence w flank = Inr (region, start, end)"
  obtains pos_start pos_end where "find_ori_position sequence w = Inr (pos_start, pos_end)"
  using assms by (auto simp: extract_ori_region_def split: sum.splits)

text \<open>
  C10, as amended. For a positive \<open>window_size\<close> and a non-negative \<open>flank\<close>, the
  subsequence returned by \<open>extract_ori_region\<close> is the original sequence restricted to the
  positions \<open>start \<le> p < end\<close>, character for character; the pipeline returns the same
  region and coordinates.
\<close>

theorem extract_ori_region_is_slice:
  assumes "0 < w" "0 \<le> flank" "extract_ori_region sequence w flank = Inr (region, start, end)"
  shows "region = take (nat (end - start)) (drop (nat start) sequence)
         \<and> 0 \<le> start \<and> start \<le> end \<and> end \<le> int (length sequence)
         \<and> int (length region) = end - start
         \<and> (\<forall>j. j < length region \<longrightarrow> region ! j = sequence ! (nat start + j))
         \<and> (\<exists>r. find_ori_with_clumps sequence w flank k clump_window min_occurrence = Inr r
                \<and> ori_sequence r = region \<and> ori_start r = start \<and> ori_end r = end)"
proof -
  from assms(3) obtain os oe where pos: "find_ori_position sequence w = Inr (os, oe)"
    by (rule extract_ori_region_cases)
  from extract_ori_region_eq [OF pos, of flank] assms(3)
  have eqs: "region = py_slice sequence start end"
    "start = max 0 (os + w div 2 - flank)"
    "end = min (int (length sequence)) (os + w div 2 + flank)"
    by simp_all
  from center_inside [OF assms(1) pos]
  have c: "0 \<le> os + w div 2" "os + w div 2 < int (length sequence)"
    by simp_all
  have b: "0 \<le> start" "start \<le> end" "end \<le> int (length sequence)"
    using c assms(2) unfolding eqs(2,3) by linarith+
  then have slice: "region = take (nat (end - start)) (drop (nat start) sequence)"
    unfolding eqs(1) by (intro py_slice_inside) simp_all
  have len: "int (length region) = end - start"
    using b by (simp add: slice)
  have nth: "region ! j = sequence ! (nat start + j)" if "j < length region" for j
  proof -
    from that len have "j < nat (end - start)" by linarith
    moreover from that have "j < length sequence - nat start" by (simp add: slice)
    then have "nat start + j < length sequence" by linarith
    ultimately show ?thesis by (simp add: slice)
  qed
  have "\<exists>r. find_ori_with_clumps sequence w flank k clump_window min_occurrence = Inr r
           \<and> ori_sequence r = region \<and> ori_start r = start \<and> ori_end r = end"
    by (simp add: find_ori_with_clumps_def assms(3))
  with slice b len nth show ?thesis by blast
qed

theorem extract_ori_region_is_slice_witness:
  "(0::int) < 2 \<and> (0::int) \<le> 3
   \<and> extract_ori_region ''GGCCCCAAT'' 2 3 = Inr (''CCCCAA'', 2, 8)
   \<and> ''CCCCAA'' = take (nat (8 - 2)) (drop (nat 2) ''GGCCCCAAT'')"
proof -
  have b: "extract_ori_region ''GGCCCCAAT'' 2 3 = Inr (''CCCCAA'', 2, 8)" by code_simp
  from extract_ori_region_is_slice [OF _ _ b] b show ?thesis by simp
qed

text \<open>
  C10 as stated covers every \<open>flank\<close>. For a negative \<open>flank\<close> the computed \<open>end\<close> can be
  negative, and the slice then counts it from the end of the sequence: the returned region
  is not the sequence between the returned coordinates.
\<close>

theorem extract_ori_region_negative_flank:
  "extract_ori_region ''AAAA'' 1 (- 1) = Inr (''AA'', 1, - 1)
   \<and> ''AA'' \<noteq> take (nat (- 1 - 1)) (drop (nat 1) ''AAAA'')"
  by code_simp

text \<open>
  C6. Whenever \<open>find_ori_with_clumps\<close> succeeds, its result is exactly the record of the
  region and coordinates returned by \<open>extract_ori_region\<close> and of the map that
  \<open>find_clumps\<close> returns on that region. The coordinates are the absolute ones of
  \<open>extract_ori_region\<close>; every clump key \<open>(s, e)\<close> is a window of the region
  (\<open>0 \<le> s\<close>, \<open>e = s + clump_window \<le> len region\<close>), and no offset is added to it.
\<close>

theorem find_ori_with_clumps_composition:
  assumes "find_ori_with_clumps sequence skew_window flank k clump_window min_occurrence = Inr result"
  shows "\<exists>region start end.
           extract_ori_region sequence skew_window flank = Inr (region, start, end)
           \<and> result = \<lparr>ori_start = start, ori_end = end, ori_sequence = region,
                        clumps = find_clumps region k clump_window min_occurrence\<rparr>
           \<and> (\<forall>s e. (s, e) \<in> dom (clumps result) \<longrightarrow>
                 0 \<le> s \<and> e = s + clump_window \<and> e \<le> int (length region))"
proof -
  from assms obtain region start "end" where
    ext: "extract_ori_region sequence skew_window flank = Inr (region, start, end)"
    by (auto simp: find_ori_with_clumps_def split: sum.splits)
  with assms have res: "result = \<lparr>ori_start = start, ori_end = end, ori_sequence = region,
      clumps = find_clumps region k clump_window min_occurrence\<rparr>"
    by (simp add: find_ori_with_clumps_def)
  have "0 \<le> s \<and> e = s + clump_window \<and> e \<le> int (length region)"
    if "(s, e) \<in> dom (clumps result)" for s e
    using that unfolding res by (simp only: analysis_result.simps find_clumps_keys)
  with ext res show ?thesis by blast
qed

theorem find_ori_with_clumps_composition_witness:
  "find_ori_with_clumps ''GGCCCCAAT'' 2 3 2 4 2 =
     Inr \<lparr>ori_start = 2, ori_end = 8, ori_sequence = ''CCCCAA'',
          clumps = find_clumps ''CCCCAA'' 2 4 2\<rparr>
   \<and> extract_ori_region ''GGCCCCAAT'' 2 3 = Inr (''CCCCAA'', 2, 8)
   \<and> find_clumps ''CCCCAA'' 2 4 2 (0, 4) = Some {''CC''}
   \<and> find_clumps ''CCCCAA'' 2 4 2 (1, 5) = Some {''CC''}
   \<and> find_clumps ''CCCCAA'' 2 4 2 (2, 6) = None"
proof -
  have b: "extract_ori_region ''GGCCCCAAT'' 2 3 = Inr (''CCCCAA'', 2, 8)" by code_simp
  have a: "find_ori_with_clumps ''GGCCCCAAT'' 2 3 2 4 2 =
     Inr \<lparr>ori_start = 2, ori_end = 8, ori_sequence = ''CCCCAA'',
          clumps = find_clumps ''CCCCAA'' 2 4 2\<rparr>"
    by (simp add: find_ori_with_clumps_def b)
  have c: "find_clumps ''CCCCAA'' 2 4 2 (0, 4) = Some {''CC''}"
    "find_clumps ''CCCCAA'' 2 4 2 (1, 5) = Some {''CC''}"
    "find_clumps ''CCCCAA'' 2 4 2 (2, 6) = None"
    by code_simp+
  from find_ori_with_clumps_composition [OF a] a b c show ?thesis by simp
qed

section \<open>Results of the pipeline and argument checks\<close>

text \<open>
  C7 as stated covers every non-empty sequence. A sequence shorter than \<open>skew_window\<close> has an
  empty skew profile, and the pipeline raises instead of returning a record.
\<close>

theorem find_ori_with_clumps_short_sequence:
  "find_ori_with_clumps ''A'' 1000 5000 9 1000 3 = Inl ValueError"
proof -
  have "extract_ori_region ''A'' 1000 5000 = Inl ValueError" by code_simp
  then show ?thesis by (simp add: find_ori_with_clumps_def)
qed

text \<open>
  C8 as stated has \<open>compute_gc_skew\<close> raise for every \<open>window_size \<le> 0\<close>. For a negative
  \<open>window_size\<close> the range is empty and the function returns the empty profile.
\<close>

theorem compute_gc_skew_negative_window:
  "compute_gc_skew ''GC'' (- 1) = Inr []"
  by code_simp


lemma find_ori_position_succeeds:
  assumes "0 < w" "w \<le> int (length sequence)"
  shows "\<exists>s e. find_ori_position sequence w = Inr (s, e)"
proof -
  obtain skew where skew: "compute_gc_skew sequence w = Inr skew"
    using assms(1) by (simp add: compute_gc_skew_eq)
  from assms have "nat w \<le> length sequence" "0 < nat w" by simp_all
  then have "0 < length sequence div nat w" by (simp add: div_greater_zero_iff)
  with profile_length [OF assms(1) skew] have "cumulative_gc_skew skew \<noteq> []" by auto
  from find_ori_position_min [OF skew this] show ?thesis by blast
qed

text \<open>
  C7, as amended. For a sequence at least \<open>skew_window\<close> long and positive \<open>skew_window\<close>,
  \<open>flank\<close> and \<open>clump_window\<close> (any \<open>k\<close> and \<open>min_occurrence\<close>), \<open>find_ori_with_clumps\<close>
  returns a record whose \<open>ori_sequence\<close> is non-empty, whose \<open>ori_start\<close> is below its
  \<open>ori_end\<close>, and whose clump keys \<open>(s, e)\<close> all have \<open>s < e\<close>.
\<close>

theorem find_ori_with_clumps_nonempty:
  assumes "0 < skew_window" "skew_window \<le> int (length sequence)"
    "0 < flank" "0 < clump_window"
  shows "\<exists>r. find_ori_with_clumps sequence skew_window flank k clump_window min_occurrence = Inr r
           \<and> ori_sequence r \<noteq> []
           \<and> ori_start r < ori_end r
           \<and> (\<forall>s e. (s, e) \<in> dom (clumps r) \<longrightarrow> s < e)"
proof -
  from find_ori_position_succeeds [OF assms(1,2)] obtain ps pe where
    pos: "find_ori_position sequence skew_window = Inr (ps, pe)" by blast
  define start where "start = max 0 (ps + skew_window div 2 - flank)"
  define "end" where "end = min (int (length sequence)) (ps + skew_window div 2 + flank)"
  define region where "region = py_slice sequence start end"
  from center_inside [OF assms(1) pos]
  have c: "0 \<le> ps + skew_window div 2" "ps + skew_window div 2 < int (length sequence)"
    by simp_all
  have b: "0 \<le> start" "start < end" "end \<le> int (length sequence)"
    using c assms(3) unfolding start_def end_def by linarith+
  then have "region = take (nat (end - start)) (drop (nat start) sequence)"
    unfolding region_def by (intro py_slice_inside) simp_all
  with b have "int (length region) = end - start" by simp
  with b have ne: "region \<noteq> []" by auto
  have ext: "extract_ori_region sequence skew_window flank = Inr (region, start, end)"
    using extract_ori_region_eq [OF pos, of flank] by (simp add: region_def start_def end_def)
  let ?r = "\<lparr>ori_start = start, ori_end = end, ori_sequence = region,
             clumps = find_clumps region k clump_window min_occurrence\<rparr>"
  have res: "find_ori_with_clumps sequence skew_window flank k clump_window min_occurrence = Inr ?r"
    by (simp add: find_ori_with_clumps_def ext)
  have keys: "s < e" if "(s, e) \<in> dom (clumps ?r)" for s e
  proof -
    from that have "(s, e) \<in> dom (find_clumps region k clump_window min_occurrence)" by simp
    from find_clumps_keys [OF this] assms(4) show ?thesis by simp
  qed
  show ?thesis
    apply (rule exI [of _ ?r])
    using res ne b(2) keys by simp
qed

theorem find_ori_with_clumps_nonempty_witness:
  "(0::int) < 2 \<and> 2 \<le> int (length ''GGCCCCAAT'') \<and> (0::int) < 3 \<and> (0::int) < 4
   \<and> find_ori_with_clumps ''GGCCCCAAT'' 2 3 2 4 2 =
        Inr \<lparr>ori_start = 2, ori_end = 8, ori_sequence = ''CCCCAA'',
             clumps = find_clumps ''CCCCAA'' 2 4 2\<rparr>
   \<and> find_clumps ''CCCCAA'' 2 4 2 (0, 4) = Some {''CC''}"
proof -
  have b: "extract_ori_region ''GGCCCCAAT'' 2 3 = Inr (''CCCCAA'', 2, 8)" by code_simp
  have a: "find_ori_with_clumps ''GGCCCCAAT'' 2 3 2 4 2 =
     Inr \<lparr>ori_start = 2, ori_end = 8, ori_sequence = ''CCCCAA'',
          clumps = find_clumps ''CCCCAA'' 2 4 2\<rparr>"
    by (simp add: find_ori_with_clumps_def b)
  have c: "find_clumps ''CCCCAA'' 2 4 2 (0, 4) = Some {''CC''}" by code_simp
  from find_ori_with_clumps_nonempty [of 2 "''GGCCCCAAT''" 3 4 2 2] a c show ?thesis by simp
qed

lemma compute_gc_skew_zero: "compute_gc_skew sequence 0 = Inl ValueError"
  by (simp add: compute_gc_skew_def py_range3_def)

lemma compute_gc_skew_negative:
  assumes "w < 0"
  shows "compute_gc_skew sequence w = Inr []"
proof -
  from assms have "range_len 0 (int (length sequence) - w + 1) w = 0"
    by (simp add: range_len_def)
  with assms show ?thesis by (simp add: compute_gc_skew_def py_range3_def)
qed

lemma frequent_kmers_empty_window: "frequent_kmers [] 0 m = (if m \<le> 1 then {[]} else {})"
  by (simp add: frequent_kmers_def count_kmers_def py_range_def py_slice_def adjust_index_def)

text \<open>
  C8, as amended. \<open>compute_gc_skew\<close> raises exactly when \<open>window_size = 0\<close> (the
  \<open>ValueError\<close> of \<open>range\<close> for a zero step, raised before the loop body runs); for every
  negative \<open>window_size\<close> it returns the empty profile. \<open>find_clumps\<close> has no failing
  operation and returns a map for every \<open>k\<close> and \<open>window_length\<close>: with \<open>k = 0\<close>,
  \<open>window_length = 0\<close> and \<open>min_occurrence \<le> 1\<close> it maps every \<open>(i, i)\<close> with
  \<open>0 \<le> i \<le> len sequence\<close> to the set holding the empty string.
\<close>

theorem argument_checks_absent:
  "(compute_gc_skew sequence w = Inl ValueError \<longleftrightarrow> w = 0)
   \<and> (w < 0 \<longrightarrow> compute_gc_skew sequence w = Inr [])
   \<and> (m \<le> 1 \<and> 0 \<le> i \<and> i \<le> int (length sequence) \<longrightarrow>
        find_clumps sequence 0 0 m (i, i) = Some {[]})"
proof -
  have "compute_gc_skew sequence w \<noteq> Inl ValueError" if "w \<noteq> 0"
  proof (cases "0 < w")
    case True
    then show ?thesis by (simp add: compute_gc_skew_eq)
  next
    case False
    with that have "w < 0" by simp
    then show ?thesis by (simp add: compute_gc_skew_negative)
  qed
  then have a: "compute_gc_skew sequence w = Inl ValueError \<longleftrightarrow> w = 0"
    using compute_gc_skew_zero by blast
  have "find_clumps sequence 0 0 m (i, i) = Some {[]}"
    if "m \<le> 1" "0 \<le> i" "i \<le> int (length sequence)"
  proof -
    from that(2,3) have "py_slice sequence i (i + 0) = []"
      by (simp add: py_slice_inside)
    with that show ?thesis
      by (simp add: find_clumps_eq frequent_kmers_empty_window)
  qed
  with a compute_gc_skew_negative show ?thesis by blast
qed

theorem argument_checks_absent_witness:
  "compute_gc_skew ''GC'' 0 = Inl ValueError
   \<and> compute_gc_skew ''GC'' (- 2) = Inr []
   \<and> find_clumps ''GC'' 0 0 1 (2, 2) = Some {[]}"
  using argument_checks_absent [of "''GC''" 0 1 2] argument_checks_absent [of "''GC''" "- 2" 1 2]
  by simp

section \<open>Clump finding against its reference definition\<close>

lemma increment_map_of:
  "map_of (increment acc x) =
     (map_of acc)(x \<mapsto> (case map_of acc x of None \<Rightarrow> 1 | Some c \<Rightarrow> c + 1))"
  by (induction acc x rule: increment.induct) (auto simp: fun_eq_iff)

lemma increment_keys: "fst ` set (increment acc x) = insert x (fst ` set acc)"
  by (induction acc x rule: increment.induct) auto

lemma increment_distinct:
  "distinct (map fst acc) \<Longrightarrow> distinct (map fst (increment acc x))"
  by (induction acc x rule: increment.induct) (auto simp: increment_keys)

lemma fold_increment_distinct:
  "distinct (map fst acc) \<Longrightarrow> distinct (map fst (fold (\<lambda>x a. increment a x) xs acc))"
  by (induction xs arbitrary: acc) (simp_all add: increment_distinct)

lemma fold_increment_map_of:
  "map_of (fold (\<lambda>x a. increment a x) xs acc) key =
     (if key \<in> set xs
      then Some ((case map_of acc key of None \<Rightarrow> 0 | Some c \<Rightarrow> c) + int (count_list xs key))
      else map_of acc key)"
proof (induction xs arbitrary: acc)
  case Nil
  then show ?case by simp
next
  case (Cons x xs)
  show ?case
    by (simp add: Cons.IH increment_map_of split: option.splits)
qed

lemma count_kmers_fold:
  "count_kmers window k =
     fold (\<lambda>x a. increment a x)
       (map (\<lambda>j. py_slice window j (j + k)) (py_range 0 (int (length window) - k + 1))) []"
  by (simp add: count_kmers_def fold_map comp_def)

lemma frequent_kmers_count:
  "frequent_kmers window k m =
     (let kmers = map (\<lambda>j. py_slice window j (j + k)) (py_range 0 (int (length window) - k + 1))
      in {kmer \<in> set kmers. m \<le> int (count_list kmers kmer)})"
proof -
  let ?kmers = "map (\<lambda>j. py_slice window j (j + k)) (py_range 0 (int (length window) - k + 1))"
  let ?al = "fold (\<lambda>x a. increment a x) ?kmers []"
  have d: "distinct (map fst ?al)" by (rule fold_increment_distinct) simp
  have "frequent_kmers window k m = {kmer. \<exists>c. (kmer, c) \<in> set ?al \<and> m \<le> c}"
    by (auto simp: frequent_kmers_def count_kmers_fold image_iff)
  also have "\<dots> = {kmer. \<exists>c. map_of ?al kmer = Some c \<and> m \<le> c}"
    using d by simp
  also have "\<dots> = {kmer \<in> set ?kmers. m \<le> int (count_list ?kmers kmer)}"
    by (auto simp: fold_increment_map_of split: if_splits)
  finally show ?thesis by (simp add: Let_def)
qed


lemma py_range_nat: "py_range 0 (int n) = map int [0 ..< n]"
proof (induction n)
  case 0
  then show ?case by (simp add: py_range_def)
next
  case (Suc n)
  have "[0 .. int n] = [0 .. int n - 1] @ [int n]"
    by (rule upto_rec2) simp
  with Suc show ?case by (simp add: py_range_def)
qed

lemma kmer_positions:
  assumes "0 \<le> k"
  shows "py_range 0 (int n - k + 1) = map int [0 ..< Suc n - nat k]"
proof (cases "k \<le> int n")
  case True
  with assms have "int n - k + 1 = int (Suc n - nat k)" by simp
  then show ?thesis by (simp only: py_range_nat)
next
  case False
  then have "Suc n - nat k = 0" by simp
  with False show ?thesis by (simp add: py_range_def)
qed

lemma kmers_of_window:
  assumes "0 \<le> k"
  shows "map (\<lambda>j. py_slice window j (j + k)) (py_range 0 (int (length window) - k + 1))
           = map (\<lambda>j. take (nat k) (drop j window)) [0 ..< Suc (length window) - nat k]"
proof -
  have "py_slice window (int j) (int j + k) = take (nat k) (drop j window)"
    if "j < Suc (length window) - nat k" for j
  proof -
    from that assms have "int j + k \<le> int (length window)" by linarith
    with assms show ?thesis by (simp add: py_slice_inside)
  qed
  then show ?thesis
    by (simp add: kmer_positions [OF assms] comp_def)
qed

lemma sublist_position:
  "sublist kmer window \<longleftrightarrow>
     (\<exists>j. j + length kmer \<le> length window \<and> take (length kmer) (drop j window) = kmer)"
proof
  assume "sublist kmer window"
  then obtain ps ss where "window = ps @ kmer @ ss" by (auto simp: sublist_def)
  then have "length ps + length kmer \<le> length window
      \<and> take (length kmer) (drop (length ps) window) = kmer"
    by simp
  then show "\<exists>j. j + length kmer \<le> length window \<and> take (length kmer) (drop j window) = kmer"
    by blast
next
  assume "\<exists>j. j + length kmer \<le> length window \<and> take (length kmer) (drop j window) = kmer"
  then obtain j where j: "take (length kmer) (drop j window) = kmer" by blast
  have "window = take j window @ take (length kmer) (drop j window)
                   @ drop (length kmer) (drop j window)"
    by (simp only: append_take_drop_id)
  then have "window = take j window @ kmer @ drop (length kmer) (drop j window)"
    by (simp only: j)
  then show "sublist kmer window" unfolding sublist_def by blast
qed

lemma kmers_set:
  "set (map (\<lambda>j. take l (drop j window)) [0 ..< Suc (length window) - l])
     = {kmer. length kmer = l \<and> sublist kmer window}"
proof (intro set_eqI iffI)
  fix kmer
  assume "kmer \<in> set (map (\<lambda>j. take l (drop j window)) [0 ..< Suc (length window) - l])"
  then obtain j where j: "j < Suc (length window) - l" "kmer = take l (drop j window)"
    by auto
  then have len: "length kmer = l" by auto
  with j have "j + length kmer \<le> length window \<and> take (length kmer) (drop j window) = kmer"
    by simp
  then have "sublist kmer window" unfolding sublist_position by blast
  with len show "kmer \<in> {kmer. length kmer = l \<and> sublist kmer window}" by simp
next
  fix kmer
  assume "kmer \<in> {kmer. length kmer = l \<and> sublist kmer window}"
  then have len: "length kmer = l" and "sublist kmer window" by simp_all
  then obtain j where j: "j + l \<le> length window" "take l (drop j window) = kmer"
    unfolding sublist_position by auto
  from j(1) have "j \<in> set [0 ..< Suc (length window) - l]" by simp
  with j(2) show "kmer \<in> set (map (\<lambda>j. take l (drop j window)) [0 ..< Suc (length window) - l])"
    by (metis (mono_tags, lifting) image_eqI set_map)
qed

lemma kmers_count:
  assumes "length kmer = l"
  shows "count_list (map (\<lambda>j. take l (drop j window)) [0 ..< Suc (length window) - l]) kmer
           = occurrences kmer window"
proof -
  have cf: "count_list (map f xs) y = length (filter (\<lambda>x. f x = y) xs)"
    for f :: "nat \<Rightarrow> string" and xs y
    by (induction xs) simp_all
  let ?N = "Suc (length window) - l"
  have "length (filter (\<lambda>j. take l (drop j window) = kmer) [0 ..< ?N])
          = card {i. i < length [0 ..< ?N] \<and> take l (drop ([0 ..< ?N] ! i) window) = kmer}"
    by (rule length_filter_conv_card)
  also have "{i. i < length [0 ..< ?N] \<and> take l (drop ([0 ..< ?N] ! i) window) = kmer}
               = {j. j + length kmer \<le> length window \<and> take (length kmer) (drop j window) = kmer}"
    using assms by auto
  finally show ?thesis by (simp add: cf occurrences_def)
qed

lemma frequent_kmers_ref:
  assumes "0 \<le> k"
  shows "frequent_kmers window k m = frequent_set_ref window k m"
proof -
  let ?kmers = "map (\<lambda>j. take (nat k) (drop j window)) [0 ..< Suc (length window) - nat k]"
  have "frequent_kmers window k m = {kmer \<in> set ?kmers. m \<le> int (count_list ?kmers kmer)}"
    by (simp only: frequent_kmers_count kmers_of_window [OF assms] Let_def)
  also have "\<dots> = {kmer. length kmer = nat k \<and> sublist kmer window
                          \<and> m \<le> int (occurrences kmer window)}"
    unfolding kmers_set using kmers_count [of _ "nat k" window] by auto
  also have "\<dots> = frequent_set_ref window k m"
    using assms by (auto simp: frequent_set_ref_def)
  finally show ?thesis .
qed

lemma find_clumps_refines:
  assumes "0 \<le> k"
  shows "find_clumps sequence k wl m = find_clumps_ref sequence k wl m"
  by (auto simp: fun_eq_iff find_clumps_eq find_clumps_ref_def frequent_kmers_ref [OF assms])

lemma find_clumps_long_window:
  assumes "int (length sequence) < wl"
  shows "find_clumps sequence k wl m = Map.empty"
  using assms by (auto simp: fun_eq_iff find_clumps_eq)

lemma frequent_kmers_long_kmer:
  assumes "int (length window) < k"
  shows "frequent_kmers window k m = {}"
  using assms by (simp add: frequent_kmers_def count_kmers_def py_range_def)

lemma find_clumps_long_kmer:
  assumes "0 \<le> wl" "wl < k"
  shows "find_clumps sequence k wl m = Map.empty"
proof -
  have "frequent_kmers (py_slice sequence s (s + wl)) k m = {}"
    if "0 \<le> s" "s \<le> int (length sequence) - wl" for s
  proof -
    from that assms(1) have "py_slice sequence s (s + wl) = take (nat wl) (drop (nat s) sequence)"
      by (simp add: py_slice_inside)
    then have "int (length (py_slice sequence s (s + wl))) \<le> wl"
      using assms(1) by simp
    with assms(2) show ?thesis by (intro frequent_kmers_long_kmer) simp
  qed
  then show ?thesis by (auto simp: fun_eq_iff find_clumps_eq)
qed

text \<open>
  C1, as amended. For every \<open>k \<ge> 0\<close>, \<open>find_clumps\<close> equals the reference definition: the
  key \<open>(i, i + window_length)\<close> is present exactly for the offsets
  \<open>0 \<le> i \<le> len - window_length\<close> whose window has a non-empty frequent set, and is mapped to
  that set. The result is the empty map whenever \<open>window_length > len sequence\<close>, and
  whenever \<open>k > window_length \<ge> 0\<close>.
\<close>

theorem find_clumps_reference:
  "(0 \<le> k \<longrightarrow> find_clumps sequence k wl m = find_clumps_ref sequence k wl m)
   \<and> (int (length sequence) < wl \<longrightarrow> find_clumps sequence k wl m = Map.empty)
   \<and> (0 \<le> wl \<and> wl < k \<longrightarrow> find_clumps sequence k wl m = Map.empty)"
  using find_clumps_refines find_clumps_long_window find_clumps_long_kmer by blast


theorem find_clumps_reference_witness:
  "find_clumps ''CCCCAA'' 2 4 2 = find_clumps_ref ''CCCCAA'' 2 4 2
   \<and> find_clumps_ref ''CCCCAA'' 2 4 2 (0, 4) = Some {''CC''}
   \<and> find_clumps_ref ''CCCCAA'' 2 4 2 (2, 6) = None
   \<and> find_clumps ''CC'' 2 4 2 = Map.empty
   \<and> find_clumps ''CCCCAA'' 5 4 2 = Map.empty"
proof -
  have c: "find_clumps ''CCCCAA'' 2 4 2 (0, 4) = Some {''CC''}"
    "find_clumps ''CCCCAA'' 2 4 2 (2, 6) = None"
    by code_simp+
  from find_clumps_reference [of 2 "''CCCCAA''" 4 2]
  have r: "find_clumps ''CCCCAA'' 2 4 2 = find_clumps_ref ''CCCCAA'' 2 4 2" by simp
  from find_clumps_reference [of 2 "''CC''" 4 2]
  have s: "find_clumps ''CC'' 2 4 2 = Map.empty" by auto
  from find_clumps_reference [of 5 "''CCCCAA''" 4 2]
  have l: "find_clumps ''CCCCAA'' 5 4 2 = Map.empty" by auto
  from c have "find_clumps_ref ''CCCCAA'' 2 4 2 (0, 4) = Some {''CC''}"
    "find_clumps_ref ''CCCCAA'' 2 4 2 (2, 6) = None"
    by (simp_all only: r)
  with r s l show ?thesis by blast
qed

text \<open>
  C1 as stated covers every \<open>k\<close> and \<open>window_length\<close>. For negative values the slices
  count from the end: with \<open>k = - 1\<close> and \<open>window_length = - 2\<close> on \<open>ABC\<close> the window at
  offset 0 is \<open>A\<close>, its three k-mer slices are empty strings, and the key \<open>(0, - 2)\<close> is
  mapped to the set holding the empty string. No string has length \<open>- 1\<close>, so the reference
  map has no such key; and the result is not empty although \<open>k > window_length\<close>.
\<close>

theorem find_clumps_negative_k:
  "find_clumps ''ABC'' (- 1) (- 2) 1 (0, - 2) = Some {[]}
   \<and> find_clumps_ref ''ABC'' (- 1) (- 2) 1 (0, - 2) = None
   \<and> find_clumps ''ABC'' (- 1) (- 2) 1 \<noteq> Map.empty"
proof -
  have a: "find_clumps ''ABC'' (- 1) (- 2) 1 (0, - 2) = Some {[]}" by code_simp
  have b: "find_clumps_ref ''ABC'' (- 1) (- 2) 1 (0, - 2) = None"
    by (simp add: find_clumps_ref_def frequent_set_ref_def)
  from a have "find_clumps ''ABC'' (- 1) (- 2) 1 \<noteq> Map.empty"
    by (metis option.distinct(1))
  with a b show ?thesis by simp
qed

end
